theory Spec2Isabelle
  imports Main
begin

section \<open>lib/util/npm-util.js: locating package.json, querying it, installing packages\<close>

text \<open>
  The module has three private functions (\<open>findPackageJson\<close>, \<open>installSyncSaveDev\<close>,
  \<open>check\<close>) and two wrappers (\<open>checkDeps\<close>, \<open>checkDevDeps\<close>). It talks to the outside
  through Node's \<open>path\<close>, \<open>fs\<close> and \<open>JSON\<close> and through the \<open>shelljs\<close> module. Those
  library calls are not part of the file; they are modelled below, each under the name
  the source calls it by, so that the functions of the file can be written as they stand.
\<close>

subsection \<open>JavaScript strings and arrays\<close>

text \<open>\<open>s.split(c)\<close> for a one-character separator: every separator cuts, empty parts
  are kept, and the result is never empty.\<close>

fun split_on :: "char \<Rightarrow> string \<Rightarrow> string list" where
  "split_on c [] = [[]]"
| "split_on c (x # xs) =
     (if x = c then [] # split_on c xs
      else (x # hd (split_on c xs)) # tl (split_on c xs))"

text \<open>\<open>Array.prototype.join(sep)\<close> on an array of strings.\<close>

fun array_join :: "string \<Rightarrow> string list \<Rightarrow> string" where
  "array_join sep [] = []"
| "array_join sep [x] = x"
| "array_join sep (x # y # ys) = x @ sep @ array_join sep (y # ys)"

text \<open>\<open>Array.prototype.indexOf\<close>: the first index holding the element, \<open>-1\<close> when
  there is none.\<close>

fun indexOf_from :: "int \<Rightarrow> string list \<Rightarrow> string \<Rightarrow> int" where
  "indexOf_from i [] x = - 1"
| "indexOf_from i (y # ys) x = (if y = x then i else indexOf_from (i + 1) ys x)"

definition indexOf :: "string list \<Rightarrow> string \<Rightarrow> int" where
  "indexOf xs x = indexOf_from 0 xs x"

text \<open>Decimal rendering of an array index, for the keys of arrays and strings.\<close>

fun string_of_nat :: "nat \<Rightarrow> string" where
  "string_of_nat n =
     (if n < 10 then [char_of (48 + n)]
      else string_of_nat (n div 10) @ [char_of (48 + n mod 10)])"

subsection \<open>Node's path module, POSIX flavour\<close>

text \<open>
  \<open>normalizeArray\<close> walks the parts of a path left to right with a stack \<open>res\<close>:
  empty parts and \<open>.\<close> are dropped, \<open>..\<close> pops the stack, and above the root it is
  dropped too unless \<open>allowAboveRoot\<close> holds.
\<close>

fun normalizeArray_from :: "string list \<Rightarrow> string list \<Rightarrow> bool \<Rightarrow> string list" where
  "normalizeArray_from res [] allowAboveRoot = res"
| "normalizeArray_from res (p # parts) allowAboveRoot =
     (if p = [] \<or> p = ''.'' then normalizeArray_from res parts allowAboveRoot
      else if p = ''..'' then
        (if res \<noteq> [] \<and> last res \<noteq> ''..''
           then normalizeArray_from (butlast res) parts allowAboveRoot
         else if allowAboveRoot
           then normalizeArray_from (res @ [''..'']) parts allowAboveRoot
         else normalizeArray_from res parts allowAboveRoot)
      else normalizeArray_from (res @ [p]) parts allowAboveRoot)"

definition normalizeArray :: "string list \<Rightarrow> bool \<Rightarrow> string list" where
  "normalizeArray parts allowAboveRoot = normalizeArray_from [] parts allowAboveRoot"

definition isAbsolute :: "string \<Rightarrow> bool" where
  "isAbsolute p = (case p of [] \<Rightarrow> False | c # _ \<Rightarrow> c = CHR ''/'')"

text \<open>
  \<open>path.resolve(a1, ..., an)\<close> reads its arguments from the right, then the working
  directory, until one of them is absolute; empty arguments are skipped. The list handed
  to \<open>resolve_from\<close> is that reading order.
\<close>

fun resolve_from :: "string \<Rightarrow> string list \<Rightarrow> string \<times> bool" where
  "resolve_from resolvedPath [] = (resolvedPath, False)"
| "resolve_from resolvedPath (p # ps) =
     (if p = [] then resolve_from resolvedPath ps
      else if isAbsolute p then (p @ ''/'' @ resolvedPath, True)
      else resolve_from (p @ ''/'' @ resolvedPath) ps)"

definition path_resolve :: "string \<Rightarrow> string list \<Rightarrow> string" where
  "path_resolve cwd args =
     (case resolve_from [] (rev args @ [cwd]) of
        (resolvedPath, resolvedAbsolute) \<Rightarrow>
          (let r = (if resolvedAbsolute then ''/'' else []) @
                   array_join ''/''
                     (normalizeArray (split_on CHR ''/'' resolvedPath) (\<not> resolvedAbsolute))
           in if r = [] then ''.'' else r))"

definition path_normalize :: "string \<Rightarrow> string" where
  "path_normalize p =
     (let trailingSlash = (p \<noteq> [] \<and> last p = CHR ''/'');
          n = array_join ''/'' (normalizeArray (split_on CHR ''/'' p) (\<not> isAbsolute p));
          n1 = (if n = [] \<and> \<not> isAbsolute p then ''.'' else n);
          n2 = (if n1 \<noteq> [] \<and> trailingSlash then n1 @ ''/'' else n1)
      in (if isAbsolute p then ''/'' else []) @ n2)"

definition path_join :: "string list \<Rightarrow> string" where
  "path_join args = path_normalize (array_join ''/'' (filter (\<lambda>s. s \<noteq> []) args))"

subsection \<open>The world outside: working directory, filesystem, subprocesses\<close>

datatype node = File string | Directory

text \<open>
  \<open>files\<close> maps the absolute, normalised path of every existing entry to what is there.
  \<open>executed\<close> is the list of command lines handed to the shell so far, oldest first, and
  \<open>run\<close> is what a command line does when it runs: its exit status and the filesystem it
  leaves behind.
\<close>

record world =
  cwd :: string
  files :: "string \<rightharpoonup> node"
  executed :: "string list"
  run :: "string \<Rightarrow> (string \<rightharpoonup> node) \<Rightarrow> nat \<times> (string \<rightharpoonup> node)"

datatype error =
  Error string
| TypeError
| SyntaxError
| ENOENT
| EISDIR

text \<open>\<open>fs.existsSync\<close> never throws and answers for files and directories alike;
  \<open>fs.readFileSync\<close> throws on a missing path and on a directory. Neither writes.\<close>

definition fs_existsSync :: "string \<Rightarrow> world \<Rightarrow> bool \<times> world" where
  "fs_existsSync p w = (files w (path_resolve (cwd w) [p]) \<noteq> None, w)"

definition fs_readFileSync :: "string \<Rightarrow> world \<Rightarrow> (error + string) \<times> world" where
  "fs_readFileSync p w =
     (case files w (path_resolve (cwd w) [p]) of
        None \<Rightarrow> (Inl ENOENT, w)
      | Some Directory \<Rightarrow> (Inl EISDIR, w)
      | Some (File text) \<Rightarrow> (Inr text, w))"

text \<open>
  The module required as \<open>shell\<close> is \<open>shelljs\<close>. Of its exports only the one that
  runs a command line matters here: \<open>exec\<close>, which runs the command to its end and
  answers with its exit status. The module exports nothing under the name \<open>execSync\<close>.
\<close>

definition shell_exec :: "string \<Rightarrow> world \<Rightarrow> nat \<times> world" where
  "shell_exec cmd w =
     (case run w cmd (files w) of
        (status, files') \<Rightarrow> (status, w\<lparr>files := files', executed := executed w @ [cmd]\<rparr>))"

definition shell_exports :: "string \<Rightarrow> (string \<Rightarrow> world \<Rightarrow> nat \<times> world) option" where
  "shell_exports name = (if name = ''exec'' then Some shell_exec else None)"

text \<open>
  \<open>shell.execSync(cmd, {stdio: "inherit"})\<close>: the property \<open>execSync\<close> of the module is
  looked up, the argument is evaluated, and the value found is called. A property the
  module does not export reads as \<open>undefined\<close>, and calling \<open>undefined\<close> throws a
  \<open>TypeError\<close> before anything runs.
\<close>

definition shell_execSync :: "string \<Rightarrow> world \<Rightarrow> (error + unit) \<times> world" where
  "shell_execSync cmd w =
     (case shell_exports ''execSync'' of
        None \<Rightarrow> (Inl TypeError, w)
      | Some f \<Rightarrow> (Inr (), snd (f cmd w)))"

subsection \<open>JSON values and the objects of the module\<close>

datatype json =
  JNull
| JBool bool
| JNumber string
| JString string
| JArray "json list"
| JObject "(string \<times> json) list"

text \<open>
  \<open>fileJson.name\<close>: reading a property of \<open>null\<close> throws; an object answers with its
  own property or \<open>undefined\<close> (here \<open>None\<close>); any other JSON value has no property of
  the two names the module asks for.
\<close>

definition get_property :: "json \<Rightarrow> string \<Rightarrow> error + json option" where
  "get_property v name =
     (case v of
        JNull \<Rightarrow> Inl TypeError
      | JObject props \<Rightarrow> Inr (map_of props name)
      | _ \<Rightarrow> Inr None)"

text \<open>\<open>Object.keys\<close> (ECMAScript 2015): \<open>undefined\<close> and \<open>null\<close> throw, an object
  gives its own keys, arrays and strings give their indices, numbers and booleans none.\<close>

definition Object_keys :: "json option \<Rightarrow> error + string list" where
  "Object_keys v =
     (case v of
        None \<Rightarrow> Inl TypeError
      | Some JNull \<Rightarrow> Inl TypeError
      | Some (JObject props) \<Rightarrow> Inr (map fst props)
      | Some (JArray xs) \<Rightarrow> Inr (map string_of_nat [0..<length xs])
      | Some (JString s) \<Rightarrow> Inr (map string_of_nat [0..<length s])
      | Some _ \<Rightarrow> Inr [])"

text \<open>
  \<open>status[pkg] = b\<close> on an object that started as \<open>{}\<close>: the object inherits from
  \<open>Object.prototype\<close>, whose only accessor property is \<open>__proto__\<close>; its setter ignores
  a boolean, so that assignment leaves the object as it was. Every other name becomes
  (or overwrites) an own property. The object is kept as the map of its own properties.
\<close>

definition set_property :: "(string \<rightharpoonup> bool) \<Rightarrow> string \<Rightarrow> bool \<Rightarrow> (string \<rightharpoonup> bool)" where
  "set_property obj name b = (if name = ''__proto__'' then obj else obj(name \<mapsto> b))"

text \<open>The options object: an absent key reads as \<open>undefined\<close>, which is falsy.\<close>

record options =
  dependencies :: bool
  devDependencies :: bool

subsection \<open>findPackageJson\<close>

text \<open>
  The body of the \<open>do ... while\<close> loop, from one value of \<open>dir\<close>. \<open>continue\<close> jumps to
  the loop condition, which is therefore evaluated on the parent directory. The loop has
  no bound of its own, so not returning is the value \<open>None\<close>; a returned \<open>null\<close> is
  \<open>Some (None, w)\<close>.
\<close>

partial_function (option) findPackageJson_loop ::
  "string \<Rightarrow> world \<Rightarrow> (string option \<times> world) option" where
  "findPackageJson_loop dir w =
     (let pkgfile = path_join [dir, ''package.json''] in
      case fs_existsSync pkgfile w of
        (found, w1) \<Rightarrow>
          if \<not> found then
            (let dir' = path_join [dir, ''..''] in
             if dir' \<noteq> path_resolve (cwd w1) [dir', ''..'']
             then findPackageJson_loop dir' w1
             else Some (None, w1))
          else Some (Some pkgfile, w1))"

text \<open>\<open>startDir || process.cwd()\<close>: an absent or empty argument gives the working
  directory.\<close>

definition start_or_cwd :: "string option \<Rightarrow> world \<Rightarrow> string" where
  "start_or_cwd startDir w =
     (case startDir of None \<Rightarrow> cwd w | Some s \<Rightarrow> if s = [] then cwd w else s)"

definition findPackageJson :: "string option \<Rightarrow> world \<Rightarrow> (string option \<times> world) option" where
  "findPackageJson startDir w =
     findPackageJson_loop (path_resolve (cwd w) [start_or_cwd startDir w]) w"

subsection \<open>installSyncSaveDev\<close>

datatype packages_arg = Str string | Arr "string list"

text \<open>The argument of the call: \<open>"npm i --save-dev " + packages\<close>, after an array has
  been replaced by its elements joined with single spaces.\<close>

definition install_command :: "packages_arg \<Rightarrow> string" where
  "install_command packages =
     (let packages' = (case packages of Arr ps \<Rightarrow> array_join '' '' ps | Str s \<Rightarrow> s)
      in ''npm i --save-dev '' @ packages')"

definition installSyncSaveDev :: "packages_arg \<Rightarrow> world \<Rightarrow> (error + unit) \<times> world" where
  "installSyncSaveDev packages w = shell_execSync (install_command packages) w"

subsection \<open>check and its wrappers\<close>

text \<open>\<open>deps.concat(Object.keys(fileJson.name))\<close>, with both places where it throws.\<close>

definition concat_keys :: "string list \<Rightarrow> json \<Rightarrow> string \<Rightarrow> error + string list" where
  "concat_keys deps fileJson name =
     (case get_property fileJson name of
        Inl e \<Rightarrow> Inl e
      | Inr field \<Rightarrow>
          (case Object_keys field of
             Inl e \<Rightarrow> Inl e
           | Inr keys \<Rightarrow> Inr (deps @ keys)))"

text \<open>The two \<open>if\<close> statements that collect \<open>deps\<close>, in the order of the source.\<close>

definition collect_deps :: "json \<Rightarrow> options \<Rightarrow> error + string list" where
  "collect_deps fileJson opt =
     (case (if devDependencies opt then concat_keys [] fileJson ''devDependencies'' else Inr []) of
        Inl e \<Rightarrow> Inl e
      | Inr deps \<Rightarrow>
          (if dependencies opt then concat_keys deps fileJson ''dependencies'' else Inr deps))"

text \<open>\<open>packages.reduce(function(status, pkg) {...}, {})\<close>.\<close>

definition reduce_status :: "string list \<Rightarrow> string list \<Rightarrow> (string \<rightharpoonup> bool)" where
  "reduce_status deps packages =
     foldl (\<lambda>status pkg. set_property status pkg (indexOf deps pkg \<noteq> - 1)) Map.empty packages"

text \<open>
  \<open>JSON.parse\<close> is the first argument: \<open>None\<close> is its \<open>SyntaxError\<close>. \<open>findPackageJson\<close>
  is called with no argument.
\<close>

definition check ::
  "(string \<Rightarrow> json option) \<Rightarrow> string list \<Rightarrow> options \<Rightarrow> world \<Rightarrow>
   ((error + (string \<rightharpoonup> bool)) \<times> world) option" where
  "check JSON_parse packages opt w =
     (case findPackageJson None w of
        None \<Rightarrow> None
      | Some (None, w1) \<Rightarrow> Some (Inl (Error ''Could not find a package.json file''), w1)
      | Some (Some pkgJson, w1) \<Rightarrow>
          Some (case fs_readFileSync pkgJson w1 of
                  (Inl e, w2) \<Rightarrow> (Inl e, w2)
                | (Inr text, w2) \<Rightarrow>
                    (case JSON_parse text of
                       None \<Rightarrow> (Inl SyntaxError, w2)
                     | Some fileJson \<Rightarrow>
                         (case collect_deps fileJson opt of
                            Inl e \<Rightarrow> (Inl e, w2)
                          | Inr deps \<Rightarrow> (Inr (reduce_status deps packages), w2)))))"

definition checkDeps ::
  "(string \<Rightarrow> json option) \<Rightarrow> string list \<Rightarrow> world \<Rightarrow>
   ((error + (string \<rightharpoonup> bool)) \<times> world) option" where
  "checkDeps JSON_parse packages w =
     check JSON_parse packages \<lparr>dependencies = True, devDependencies = False\<rparr> w"

definition checkDevDeps ::
  "(string \<Rightarrow> json option) \<Rightarrow> string list \<Rightarrow> world \<Rightarrow>
   ((error + (string \<rightharpoonup> bool)) \<times> world) option" where
  "checkDevDeps JSON_parse packages w =
     check JSON_parse packages \<lparr>dependencies = False, devDependencies = True\<rparr> w"

subsection \<open>Notions the statements below are written in\<close>

text \<open>An absolute, normalised path is \<open>/\<close> followed by its segments joined with
  \<open>/\<close>; the root directory is the path of no segment.\<close>

definition render :: "string list \<Rightarrow> string" where
  "render segs = CHR ''/'' # array_join ''/'' segs"

definition dir_segments :: "string \<Rightarrow> string list" where
  "dir_segments p = normalizeArray (split_on CHR ''/'' p) False"

definition clean_seg :: "string \<Rightarrow> bool" where
  "clean_seg s = (s \<noteq> [] \<and> s \<noteq> ''.'' \<and> s \<noteq> ''..'' \<and> CHR ''/'' \<notin> set s)"

text \<open>The directory itself, its parent, and so on up to the root, which comes last.\<close>

definition dirs_up_to_root :: "string \<Rightarrow> string list" where
  "dirs_up_to_root d =
     map (\<lambda>k. render (take k (dir_segments d))) (rev [0..<Suc (length (dir_segments d))])"

text \<open>The directory where the search of \<open>findPackageJson startDir\<close> starts.\<close>

definition start_dir :: "string option \<Rightarrow> world \<Rightarrow> string" where
  "start_dir startDir w = path_resolve (cwd w) [start_or_cwd startDir w]"

text \<open>Whether an entry named \<open>package.json\<close> exists in a directory, as
  \<open>fs.existsSync\<close> sees it.\<close>

definition manifest_at :: "world \<Rightarrow> string \<Rightarrow> bool" where
  "manifest_at w d = fst (fs_existsSync (path_join [d, ''package.json'']) w)"

text \<open>The keys of a field of the manifest, when the manifest is an object and the field
  is an object too.\<close>

definition field_keys :: "json \<Rightarrow> string \<Rightarrow> string list option" where
  "field_keys fileJson name =
     (case fileJson of
        JObject props \<Rightarrow>
          (case map_of props name of Some (JObject kvs) \<Rightarrow> Some (map fst kvs) | _ \<Rightarrow> None)
      | _ \<Rightarrow> None)"

text \<open>The names the options select, given the keys of the two fields.\<close>

definition selected_names :: "options \<Rightarrow> string list \<Rightarrow> string list \<Rightarrow> string set" where
  "selected_names opt devKeys depKeys =
     (if devDependencies opt then set devKeys else {}) \<union>
     (if dependencies opt then set depKeys else {})"

text \<open>What \<open>check\<close> does with the entry it has located (lines 72 to 82 of the source):
  read it, parse it, collect the names, fold the requested names into the result.\<close>

definition manifest_answer ::
  "(string \<Rightarrow> json option) \<Rightarrow> string list \<Rightarrow> options \<Rightarrow> node option \<Rightarrow>
   error + (string \<rightharpoonup> bool)" where
  "manifest_answer JSON_parse packages opt entry =
     (case entry of
        None \<Rightarrow> Inl ENOENT
      | Some Directory \<Rightarrow> Inl EISDIR
      | Some (File text) \<Rightarrow>
          (case JSON_parse text of
             None \<Rightarrow> Inl SyntaxError
           | Some fileJson \<Rightarrow>
               (case collect_deps fileJson opt of
                  Inl e \<Rightarrow> Inl e
                | Inr deps \<Rightarrow> Inr (reduce_status deps packages))))"

text \<open>Concrete worlds for the examples: a working directory, the entries of the
  filesystem, no command run yet, and commands that succeed and write nothing. A parser
  for an example is the table of the texts it is asked about.\<close>

definition quiet_run :: "string \<Rightarrow> (string \<rightharpoonup> node) \<Rightarrow> nat \<times> (string \<rightharpoonup> node)" where
  "quiet_run cmd fs = (0, fs)"

definition world_of :: "string \<Rightarrow> (string \<times> node) list \<Rightarrow> world" where
  "world_of d entries = \<lparr>cwd = d, files = map_of entries, executed = [], run = quiet_run\<rparr>"

definition parse_table :: "(string \<times> json) list \<Rightarrow> string \<Rightarrow> json option" where
  "parse_table table text = map_of table text"

subsection \<open>Example manifests and worlds\<close>

text \<open>Three manifests, as text and as the value \<open>JSON.parse\<close> gives for the text; a
  project whose working directory \<open>/home/app\<close> holds a manifest; a world whose only
  manifest lies outside the chain of \<open>/home/app\<close>; and a project with a second, different
  manifest in the root directory, with and without one more file.\<close>

definition deps_text :: string where
  \<open>deps_text = ''{"dependencies": {"a": "1.0.0", "b": "2.0.0"}}''\<close>

definition deps_json :: json where
  "deps_json = JObject [(''dependencies'',
                  JObject [(''a'', JString ''1.0.0''), (''b'', JString ''2.0.0'')])]"

definition dev_text :: string where
  \<open>dev_text = ''{"devDependencies": {"x": "1.0.0"}}''\<close>

definition dev_json :: json where
  "dev_json = JObject [(''devDependencies'', JObject [(''x'', JString ''1.0.0'')])]"

definition bare_text :: string where
  \<open>bare_text = ''{"name": "app"}''\<close>

definition bare_json :: json where
  "bare_json = JObject [(''name'', JString ''app'')]"

definition example_parse :: "string \<Rightarrow> json option" where
  "example_parse =
     parse_table [(deps_text, deps_json), (dev_text, dev_json), (bare_text, bare_json)]"

definition project :: "string \<Rightarrow> world" where
  "project text = world_of ''/home/app'' [(''/home/app/package.json'', File text)]"

definition stray_world :: world where
  "stray_world = world_of ''/home/app'' [(''/srv/package.json'', File bare_text)]"

definition nested_project :: world where
  "nested_project =
     world_of ''/home/app''
       [(''/home/app/package.json'', File deps_text), (''/package.json'', File dev_text)]"

definition nested_project_with_readme :: world where
  "nested_project_with_readme =
     world_of ''/home/app''
       [(''/home/app/package.json'', File deps_text), (''/package.json'', File dev_text),
        (''/home/app/README'', File ''hello'')]"

section \<open>Properties\<close>

subsection \<open>Splitting, joining and normalising paths\<close>

lemma split_on_ne [simp]: "split_on c s \<noteq> []"
  by (induction s) auto

lemma split_on_notin: "c \<notin> set s \<Longrightarrow> split_on c s = [s]"
  by (induction s) auto

lemma split_on_append: "split_on c (a @ c # b) = split_on c a @ split_on c b"
proof (induction a)
  case Nil
  show ?case by simp
next
  case (Cons x a)
  then show ?case by (cases "split_on c a") auto
qed

lemma split_on_parts: "p \<in> set (split_on c s) \<Longrightarrow> c \<notin> set p"
proof (induction s arbitrary: p)
  case Nil
  then show ?case by simp
next
  case (Cons x s)
  show ?case
  proof (cases "x = c")
    case True
    with Cons show ?thesis by auto
  next
    case False
    obtain q qs where q: "split_on c s = q # qs" by (cases "split_on c s") auto
    with Cons False show ?thesis by auto
  qed
qed

lemma norm_from_append:
  "normalizeArray_from res (a @ b) al = normalizeArray_from (normalizeArray_from res a al) b al"
  by (induction res a al rule: normalizeArray_from.induct) auto

lemma norm_from_clean:
  "list_all clean_seg parts \<Longrightarrow> normalizeArray_from res parts al = res @ parts"
  by (induction parts arbitrary: res) (auto simp: clean_seg_def)

lemma norm_from_keeps_clean:
  "list_all clean_seg res \<Longrightarrow> \<forall>p \<in> set parts. CHR ''/'' \<notin> set p \<Longrightarrow>
   list_all clean_seg (normalizeArray_from res parts False)"
proof (induction res parts "False" rule: normalizeArray_from.induct)
  case (1 res)
  then show ?case by simp
next
  case (2 res p parts)
  have bl: "list_all clean_seg (butlast res)"
    using "2.prems"(1) by (auto simp: list_all_iff dest: in_set_butlastD)
  from 2 bl show ?case by (auto simp: clean_seg_def)
qed

lemma split_join_clean:
  "list_all clean_seg segs \<Longrightarrow>
   normalizeArray_from res (split_on CHR ''/'' (array_join ''/'' segs)) al = res @ segs"
proof (induction segs arbitrary: res)
  case Nil
  show ?case by simp
next
  case (Cons x segs)
  have x: "clean_seg x" using Cons.prems by simp
  show ?case
  proof (cases segs)
    case Nil
    with x show ?thesis by (simp add: clean_seg_def split_on_notin)
  next
    case (Cons y ys)
    have "split_on CHR ''/'' (array_join ''/'' (x # segs)) =
          [x] @ split_on CHR ''/'' (array_join ''/'' segs)"
      using x split_on_append[of "CHR ''/''" x "array_join ''/'' segs"] Cons
      by (simp add: clean_seg_def split_on_notin)
    moreover have "normalizeArray_from (res @ [x]) (split_on CHR ''/'' (array_join ''/'' segs)) al
          = (res @ [x]) @ segs"
      using Cons.IH Cons.prems by simp
    ultimately show ?thesis using x by (simp add: clean_seg_def)
  qed
qed

lemma dir_segments_render:
  "list_all clean_seg segs \<Longrightarrow> dir_segments (render segs) = segs"
  using split_join_clean[of segs "[]" False]
  by (simp add: dir_segments_def render_def normalizeArray_def)

lemma render_inj:
  "list_all clean_seg a \<Longrightarrow> list_all clean_seg b \<Longrightarrow> render a = render b \<Longrightarrow> a = b"
  by (metis dir_segments_render)

lemma dir_segments_clean: "list_all clean_seg (dir_segments p)"
  unfolding dir_segments_def normalizeArray_def
  by (rule norm_from_keeps_clean) (auto dest: split_on_parts)



lemma render_ne [simp]: "render segs \<noteq> []"
  by (simp add: render_def)

lemma isAbsolute_render [simp]: "isAbsolute (render segs)"
  by (simp add: render_def isAbsolute_def)

lemma isAbsolute_append: "isAbsolute p \<Longrightarrow> isAbsolute (p @ q)"
  by (cases p) (auto simp: isAbsolute_def)

lemma resolve_from_absolute:
  "isAbsolute wd \<Longrightarrow> snd (resolve_from acc (ps @ [wd])) \<and> isAbsolute (fst (resolve_from acc (ps @ [wd])))"
proof (induction ps arbitrary: acc)
  case Nil
  then show ?case by (auto simp: isAbsolute_def isAbsolute_append split: list.splits)
next
  case (Cons p ps)
  then show ?case by (auto simp: isAbsolute_append)
qed

lemma path_resolve_absolute:
  assumes "isAbsolute wd"
  shows "path_resolve wd args = render (dir_segments (fst (resolve_from [] (rev args @ [wd]))))"
proof -
  obtain s b where r: "resolve_from [] (rev args @ [wd]) = (s, b)"
    by (cases "resolve_from [] (rev args @ [wd])")
  with resolve_from_absolute[OF assms, of "[]" "rev args"] have b by simp
  with r show ?thesis
    by (simp add: path_resolve_def render_def dir_segments_def)
qed

lemma norm_rendered:
  assumes "list_all clean_seg segs"
  shows "normalizeArray_from [] (split_on CHR ''/'' (render segs @ CHR ''/'' # rest)) al
         = normalizeArray_from segs (split_on CHR ''/'' rest) al"
proof -
  have "split_on CHR ''/'' (render segs @ CHR ''/'' # rest)
        = [] # split_on CHR ''/'' (array_join ''/'' segs) @ split_on CHR ''/'' rest"
    using split_on_append[of "CHR ''/''" "array_join ''/'' segs" rest]
    by (simp add: render_def)
  then show ?thesis
    using split_join_clean[OF assms, of "[]" al]
    by (simp add: norm_from_append)
qed

lemma path_join_name:
  assumes "list_all clean_seg segs" and "clean_seg name"
  shows "path_join [render segs, name] = render (segs @ [name])"
proof -
  have n: "name \<noteq> []" "CHR ''/'' \<notin> set name" "name \<noteq> ''.''" "name \<noteq> ''..''"
    using assms(2) by (auto simp: clean_seg_def)
  have l: "last name \<noteq> CHR ''/''" using n(1,2) last_in_set by metis
  have "normalizeArray (split_on CHR ''/'' (render segs @ CHR ''/'' # name)) False = segs @ [name]"
    using norm_rendered[OF assms(1), of name False] n
    by (simp add: normalizeArray_def split_on_notin)
  then show ?thesis using n l
    by (simp add: path_join_def path_normalize_def isAbsolute_append Let_def render_def[of "segs @ [name]"])
qed

lemma path_join_up:
  assumes "list_all clean_seg segs"
  shows "path_join [render segs, ''..''] = render (butlast segs)"
proof -
  have "normalizeArray (split_on CHR ''/'' (render segs @ CHR ''/'' # ''..'')) False = butlast segs"
    using norm_rendered[OF assms, of "''..''" False] assms
    by (cases segs rule: rev_cases) (auto simp: normalizeArray_def clean_seg_def)
  then show ?thesis
    by (simp add: path_join_def path_normalize_def isAbsolute_append Let_def render_def[of "butlast segs"])
qed

lemma path_resolve_rendered:
  assumes "resolve_from [] (rev args @ [wd]) = (s, True)"
  shows "path_resolve wd args = render (normalizeArray (split_on CHR ''/'' s) False)"
  using assms by (simp add: path_resolve_def render_def)

lemma path_resolve_up:
  assumes "list_all clean_seg segs"
  shows "path_resolve wd [render segs, ''..''] = render (butlast segs)"
proof -
  have n: "normalizeArray (split_on CHR ''/'' (render segs @ CHR ''/'' # ''../'')) False = butlast segs"
    using norm_rendered[OF assms, of "''../''" False] assms
    by (cases segs rule: rev_cases) (auto simp: normalizeArray_def clean_seg_def)
  have "\<not> isAbsolute ''..''" by (simp add: isAbsolute_def)
  then have "resolve_from [] (rev [render segs, ''..''] @ [wd]) = (render segs @ CHR ''/'' # ''../'', True)"
    by simp
  from path_resolve_rendered[OF this] n show ?thesis by simp
qed

lemma path_resolve_id:
  assumes "list_all clean_seg segs"
  shows "path_resolve wd [render segs] = render segs"
proof -
  have n: "normalizeArray (split_on CHR ''/'' (render segs @ CHR ''/'' # [])) False = segs"
    using norm_rendered[OF assms, of "[]" False]
    by (simp add: normalizeArray_def)
  have "resolve_from [] (rev [render segs] @ [wd]) = (render segs @ CHR ''/'' # [], True)"
    by simp
  from path_resolve_rendered[OF this] n show ?thesis by simp
qed

lemma clean_pkg [simp]: "clean_seg ''package.json''"
  by (simp add: clean_seg_def)


subsection \<open>One turn of the loop, and the loop as a whole\<close>

lemma exists_rendered:
  "list_all clean_seg segs \<Longrightarrow>
   fs_existsSync (render segs) w = (files w (render segs) \<noteq> None, w)"
  by (simp add: fs_existsSync_def path_resolve_id)

lemma clean_snoc: "list_all clean_seg segs \<Longrightarrow> clean_seg s \<Longrightarrow> list_all clean_seg (segs @ [s])"
  by simp

lemma clean_butlast: "list_all clean_seg segs \<Longrightarrow> list_all clean_seg (butlast segs)"
  by (auto simp: list_all_iff dest: in_set_butlastD)

lemma loop_unfold:
  assumes c: "list_all clean_seg segs"
  shows "findPackageJson_loop (render segs) w =
     (if files w (render (segs @ [''package.json''])) \<noteq> None
      then Some (Some (render (segs @ [''package.json''])), w)
      else if butlast segs \<noteq> [] then findPackageJson_loop (render (butlast segs)) w
      else Some (None, w))"
proof -
  have pk: "path_join [render segs, ''package.json''] = render (segs @ [''package.json''])"
    using c by (simp add: path_join_name)
  have up: "path_join [render segs, ''..''] = render (butlast segs)"
    using c by (rule path_join_up)
  have up2: "path_resolve (cwd w) [render (butlast segs), ''..''] = render (butlast (butlast segs))"
    using c by (simp add: path_resolve_up clean_butlast)
  have ex: "fs_existsSync (render (segs @ [''package.json''])) w =
            (files w (render (segs @ [''package.json''])) \<noteq> None, w)"
    using c by (simp add: exists_rendered)
  have ne: "render (butlast segs) \<noteq> render (butlast (butlast segs)) \<longleftrightarrow> butlast segs \<noteq> []"
  proof
    assume "render (butlast segs) \<noteq> render (butlast (butlast segs))"
    then show "butlast segs \<noteq> []" by auto
  next
    assume n: "butlast segs \<noteq> []"
    have "butlast segs \<noteq> butlast (butlast segs)"
      using n by (metis length_butlast diff_less length_greater_0_conv less_irrefl zero_less_one)
    then show "render (butlast segs) \<noteq> render (butlast (butlast segs))"
      using render_inj[of "butlast segs" "butlast (butlast segs)"] c
      by (auto simp: clean_butlast)
  qed
  show ?thesis
    by (subst findPackageJson_loop.simps) (simp add: pk up up2 ex ne Let_def)
qed


lemma take_snoc_le: "k \<le> length xs \<Longrightarrow> take k (xs @ [x]) = take k xs"
  by simp

lemma loop_none:
  "list_all clean_seg segs \<Longrightarrow>
   \<forall>k \<le> length segs. files w (render (take k segs @ [''package.json''])) = None \<Longrightarrow>
   findPackageJson_loop (render segs) w = Some (None, w)"
proof (induction segs rule: rev_induct)
  case Nil
  then show ?case by (subst loop_unfold) auto
next
  case (snoc x xs)
  have c: "list_all clean_seg xs" using snoc.prems(1) by simp
  have here: "files w (render ((xs @ [x]) @ [''package.json''])) = None"
    using snoc.prems(2)[rule_format, of "length (xs @ [x])"] by simp
  have above: "\<forall>k \<le> length xs. files w (render (take k xs @ [''package.json''])) = None"
  proof (intro allI impI)
    fix k assume k: "k \<le> length xs"
    with snoc.prems(2)[rule_format, of k] show "files w (render (take k xs @ [''package.json''])) = None"
      by simp
  qed
  show ?case
    using snoc.IH[OF c above] here by (subst loop_unfold[OF snoc.prems(1)]) simp
qed

lemma loop_none_below_root:
  "list_all clean_seg segs \<Longrightarrow> segs \<noteq> [] \<Longrightarrow>
   \<forall>k. 0 < k \<and> k \<le> length segs \<longrightarrow> files w (render (take k segs @ [''package.json''])) = None \<Longrightarrow>
   findPackageJson_loop (render segs) w = Some (None, w)"
proof (induction segs rule: rev_induct)
  case Nil
  then show ?case by simp
next
  case (snoc x xs)
  have c: "list_all clean_seg xs" using snoc.prems(1) by simp
  have here: "files w (render ((xs @ [x]) @ [''package.json''])) = None"
    using snoc.prems(3)[rule_format, of "length (xs @ [x])"] by simp
  show ?case
  proof (cases "xs = []")
    case True
    with here show ?thesis by (subst loop_unfold[OF snoc.prems(1)]) simp
  next
    case False
    have above: "\<forall>k. 0 < k \<and> k \<le> length xs \<longrightarrow>
        files w (render (take k xs @ [''package.json''])) = None"
    proof (intro allI impI)
      fix k assume k: "0 < k \<and> k \<le> length xs"
      with snoc.prems(3)[rule_format, of k]
      show "files w (render (take k xs @ [''package.json''])) = None" by simp
    qed
    show ?thesis
      using snoc.IH[OF c False above] here False
      by (subst loop_unfold[OF snoc.prems(1)]) simp
  qed
qed

lemma loop_returns:
  "list_all clean_seg segs \<Longrightarrow> \<exists>r. findPackageJson_loop (render segs) w = Some (r, w)"
proof (induction segs rule: rev_induct)
  case Nil
  then show ?case by (subst loop_unfold) auto
next
  case (snoc x xs)
  have c: "list_all clean_seg xs" using snoc.prems(1) by simp
  show ?case
    using snoc.IH[OF c] by (subst loop_unfold[OF snoc.prems(1)]) simp
qed

lemma loop_agree:
  "list_all clean_seg segs \<Longrightarrow>
   \<forall>k \<le> length segs. files w' (render (take k segs @ [''package.json'']))
        = files w (render (take k segs @ [''package.json''])) \<Longrightarrow>
   map_option fst (findPackageJson_loop (render segs) w')
     = map_option fst (findPackageJson_loop (render segs) w)"
proof (induction segs rule: rev_induct)
  case Nil
  have "files w' (render ([] @ [''package.json''])) = files w (render ([] @ [''package.json'']))"
    using Nil.prems(2)[rule_format, of 0] by simp
  then show ?case
    by (simp add: loop_unfold[of "[]" w] loop_unfold[of "[]" w'])
next
  case (snoc x xs)
  have c: "list_all clean_seg xs" using snoc.prems(1) by simp
  have here: "files w' (render ((xs @ [x]) @ [''package.json'']))
      = files w (render ((xs @ [x]) @ [''package.json'']))"
    using snoc.prems(2)[rule_format, of "length (xs @ [x])"] by simp
  have above: "\<forall>k \<le> length xs. files w' (render (take k xs @ [''package.json'']))
      = files w (render (take k xs @ [''package.json'']))"
  proof (intro allI impI)
    fix k assume k: "k \<le> length xs"
    with snoc.prems(2)[rule_format, of k]
    show "files w' (render (take k xs @ [''package.json'']))
      = files w (render (take k xs @ [''package.json'']))"
      by simp
  qed
  show ?case
    using snoc.IH[OF c above] here
    by (simp add: loop_unfold[OF snoc.prems(1), of w] loop_unfold[OF snoc.prems(1), of w'])
qed

lemma loop_nearest:
  "list_all clean_seg segs \<Longrightarrow> k \<le> length segs \<Longrightarrow>
   files w (render (take k segs @ [''package.json''])) \<noteq> None \<Longrightarrow>
   \<forall>j. k < j \<and> j \<le> length segs \<longrightarrow> files w (render (take j segs @ [''package.json''])) = None \<Longrightarrow>
   0 < k \<or> segs = [] \<Longrightarrow>
   findPackageJson_loop (render segs) w = Some (Some (render (take k segs @ [''package.json''])), w)"
proof (induction segs rule: rev_induct)
  case Nil
  then show ?case by (subst loop_unfold) auto
next
  case (snoc x xs)
  have c: "list_all clean_seg xs" using snoc.prems(1) by simp
  show ?case
  proof (cases "k = length (xs @ [x])")
    case True
    with snoc.prems(3) show ?thesis by (subst loop_unfold[OF snoc.prems(1)]) simp
  next
    case False
    then have k: "k \<le> length xs" using snoc.prems(2) by simp
    have k0: "0 < k" using snoc.prems(5) by simp
    then have xs: "xs \<noteq> []" using k by auto
    have here: "files w (render ((xs @ [x]) @ [''package.json''])) = None"
      using snoc.prems(4)[rule_format, of "length (xs @ [x])"] k by simp
    have f: "files w (render (take k xs @ [''package.json''])) \<noteq> None"
      using snoc.prems(3) k by simp
    have above: "\<forall>j. k < j \<and> j \<le> length xs \<longrightarrow> files w (render (take j xs @ [''package.json''])) = None"
    proof (intro allI impI)
      fix j assume j: "k < j \<and> j \<le> length xs"
      with snoc.prems(4)[rule_format, of j]
      show "files w (render (take j xs @ [''package.json''])) = None" by simp
    qed
    have "findPackageJson_loop (render xs) w = Some (Some (render (take k xs @ [''package.json''])), w)"
      using snoc.IH[OF c k f above] k0 by simp
    then show ?thesis
      using here xs k by (subst loop_unfold[OF snoc.prems(1)]) simp
  qed
qed

subsection \<open>findPackageJson from a start directory\<close>

lemma clean_take: "list_all clean_seg segs \<Longrightarrow> list_all clean_seg (take k segs)"
  by (auto simp: list_all_iff dest: in_set_takeD)

lemma start_dir_rendered:
  assumes "isAbsolute (cwd w)"
  shows "start_dir startDir w = render (dir_segments (start_dir startDir w))"
proof -
  obtain s where s: "start_dir startDir w = render (dir_segments s)"
    using path_resolve_absolute[OF assms] by (auto simp: start_dir_def)
  then show ?thesis by (simp add: dir_segments_render dir_segments_clean)
qed

lemma findPackageJson_loop_segments:
  assumes "isAbsolute (cwd w)"
  shows "findPackageJson startDir w =
         findPackageJson_loop (render (dir_segments (start_dir startDir w))) w"
  using start_dir_rendered[OF assms, of startDir]
  by (simp add: findPackageJson_def start_dir_def)

lemma findPackageJson_rendered:
  assumes "list_all clean_seg segs" and "start_or_cwd startDir w = render segs"
  shows "findPackageJson startDir w = findPackageJson_loop (render segs) w"
  using assms by (simp add: findPackageJson_def path_resolve_id)

lemma start_dir_rendered_eq:
  assumes "list_all clean_seg segs" and "start_or_cwd startDir w = render segs"
  shows "start_dir startDir w = render segs"
  using assms by (simp add: start_dir_def path_resolve_id)

lemma dirs_up_to_root_rendered:
  "list_all clean_seg segs \<Longrightarrow>
   dirs_up_to_root (render segs) = map (\<lambda>k. render (take k segs)) (rev [0..<Suc (length segs)])"
  by (simp add: dirs_up_to_root_def dir_segments_render)

lemma in_dirs_up_to_root:
  "k \<le> length (dir_segments p) \<Longrightarrow> render (take k (dir_segments p)) \<in> set (dirs_up_to_root p)"
proof -
  assume "k \<le> length (dir_segments p)"
  then have "k \<in> set (rev [0..<Suc (length (dir_segments p))])" by auto
  then show ?thesis unfolding dirs_up_to_root_def set_map by (rule imageI)
qed

lemma in_dirs_rendered:
  assumes "list_all clean_seg segs" and "d \<in> set (dirs_up_to_root (render segs))"
  shows "\<exists>k \<le> length segs. d = render (take k segs)"
proof -
  have "d \<in> (\<lambda>k. render (take k segs)) ` {0..<Suc (length segs)}"
    using assms(2) unfolding dirs_up_to_root_rendered[OF assms(1)]
    by (simp only: set_map set_rev set_upt)
  then obtain k where "k \<in> {0..<Suc (length segs)}" "d = render (take k segs)"
    by blast
  then have "k \<le> length segs \<and> d = render (take k segs)" by simp
  then show ?thesis by blast
qed

lemma manifest_at_rendered:
  "list_all clean_seg segs \<Longrightarrow>
   manifest_at w (render segs) = (files w (render (segs @ [''package.json''])) \<noteq> None)"
  by (simp add: manifest_at_def path_join_name exists_rendered)

lemma no_manifest_files:
  assumes "\<forall>d \<in> set (dirs_up_to_root p). \<not> manifest_at w d"
  shows "\<forall>k \<le> length (dir_segments p).
           files w (render (take k (dir_segments p) @ [''package.json''])) = None"
proof (intro allI impI)
  fix k assume k: "k \<le> length (dir_segments p)"
  have "\<not> manifest_at w (render (take k (dir_segments p)))"
    using assms in_dirs_up_to_root[OF k] by blast
  then show "files w (render (take k (dir_segments p) @ [''package.json''])) = None"
    by (simp add: manifest_at_rendered clean_take dir_segments_clean)
qed

lemma findPackageJson_none:
  assumes "isAbsolute (cwd w)"
    and "\<forall>d \<in> set (dirs_up_to_root (start_dir startDir w)). \<not> manifest_at w d"
  shows "findPackageJson startDir w = Some (None, w)"
  using loop_none[OF dir_segments_clean no_manifest_files[OF assms(2)]]
  by (simp add: findPackageJson_loop_segments[OF assms(1)])

lemma findPackageJson_returns:
  assumes "isAbsolute (cwd w)"
  shows "\<exists>r. findPackageJson startDir w = Some (r, w)"
  using loop_returns[OF dir_segments_clean]
  by (simp add: findPackageJson_loop_segments[OF assms])

lemma loop_result_shape:
  "list_all clean_seg segs \<Longrightarrow> findPackageJson_loop (render segs) w = Some (Some p, w1) \<Longrightarrow>
   \<exists>k \<le> length segs. p = render (take k segs @ [''package.json''])"
proof (induction segs rule: rev_induct)
  case Nil
  then show ?case by (simp add: loop_unfold[of "[]"] split: if_splits)
next
  case (snoc x xs)
  have c: "list_all clean_seg xs" using snoc.prems(1) by simp
  show ?case
  proof (cases "files w (render ((xs @ [x]) @ [''package.json''])) \<noteq> None")
    case True
    then have "p = render (take (length (xs @ [x])) (xs @ [x]) @ [''package.json''])"
      using snoc.prems(2) by (simp add: loop_unfold[OF snoc.prems(1)])
    then show ?thesis by blast
  next
    case False
    then have "findPackageJson_loop (render xs) w = Some (Some p, w1)"
      using snoc.prems(2) by (simp add: loop_unfold[OF snoc.prems(1)] split: if_splits)
    from snoc.IH[OF c this] obtain k where "k \<le> length xs" "p = render (take k xs @ [''package.json''])"
      by blast
    then have "k \<le> length (xs @ [x]) \<and> p = render (take k (xs @ [x]) @ [''package.json''])"
      by simp
    then show ?thesis by blast
  qed
qed

lemma findPackageJson_nearest:
  assumes "isAbsolute (cwd w)" and "k \<le> length (dir_segments (start_dir startDir w))"
    and "manifest_at w (render (take k (dir_segments (start_dir startDir w))))"
    and "\<forall>j. k < j \<and> j \<le> length (dir_segments (start_dir startDir w)) \<longrightarrow>
           \<not> manifest_at w (render (take j (dir_segments (start_dir startDir w))))"
    and "0 < k \<or> dir_segments (start_dir startDir w) = []"
  shows "findPackageJson startDir w =
           Some (Some (path_join [render (take k (dir_segments (start_dir startDir w))),
                                  ''package.json'']), w)"
proof -
  let ?segs = "dir_segments (start_dir startDir w)"
  have c: "list_all clean_seg ?segs" by (rule dir_segments_clean)
  have here: "files w (render (take k ?segs @ [''package.json''])) \<noteq> None"
    using assms(3) c by (simp add: manifest_at_rendered clean_take)
  have below: "\<forall>j. k < j \<and> j \<le> length ?segs \<longrightarrow>
                 files w (render (take j ?segs @ [''package.json''])) = None"
    using assms(4) c by (simp add: manifest_at_rendered clean_take)
  have "findPackageJson_loop (render ?segs) w
          = Some (Some (render (take k ?segs @ [''package.json''])), w)"
    by (rule loop_nearest[OF c assms(2) here below assms(5)])
  then show ?thesis
    using c by (simp add: findPackageJson_loop_segments[OF assms(1)] path_join_name clean_take)
qed

lemma findPackageJson_never_tests_root:
  assumes "isAbsolute (cwd w)" and "dir_segments (start_dir startDir w) \<noteq> []"
    and "\<forall>k. 0 < k \<and> k \<le> length (dir_segments (start_dir startDir w)) \<longrightarrow>
           \<not> manifest_at w (render (take k (dir_segments (start_dir startDir w))))"
  shows "findPackageJson startDir w = Some (None, w)"
proof -
  let ?segs = "dir_segments (start_dir startDir w)"
  have c: "list_all clean_seg ?segs" by (rule dir_segments_clean)
  have "\<forall>k. 0 < k \<and> k \<le> length ?segs \<longrightarrow>
          files w (render (take k ?segs @ [''package.json''])) = None"
    using assms(3) c by (simp add: manifest_at_rendered clean_take)
  from loop_none_below_root[OF c assms(2) this] show ?thesis
    by (simp add: findPackageJson_loop_segments[OF assms(1)])
qed

lemma chain_rendered:
  assumes c: "list_all clean_seg segs" and s: "start_or_cwd startDir w = render segs"
    and a: "list_all (\<lambda>k. P (render (take k segs)) (render (take k segs @ [''package.json''])))
              [0..<Suc (length segs)]"
  shows "\<forall>d \<in> set (dirs_up_to_root (start_dir startDir w)). P d (path_join [d, ''package.json''])"
proof
  fix d assume "d \<in> set (dirs_up_to_root (start_dir startDir w))"
  then obtain k where k: "k \<le> length segs" "d = render (take k segs)"
    unfolding start_dir_rendered_eq[OF c s] using in_dirs_rendered[OF c] by blast
  have "path_join [d, ''package.json''] = render (take k segs @ [''package.json''])"
    using c k(2) by (simp add: path_join_name clean_take)
  moreover have "k \<in> set [0..<Suc (length segs)]" using k(1) by auto
  then have "P (render (take k segs)) (render (take k segs @ [''package.json'']))"
    using a unfolding list_all_iff by blast
  ultimately show "P d (path_join [d, ''package.json''])" using k(2) by simp
qed

lemma no_manifest_rendered:
  assumes c: "list_all clean_seg segs" and s: "start_or_cwd startDir w = render segs"
    and a: "list_all (\<lambda>k. files w (render (take k segs @ [''package.json''])) = None)
              [0..<Suc (length segs)]"
  shows "\<forall>d \<in> set (dirs_up_to_root (start_dir startDir w)). \<not> manifest_at w d"
proof -
  have "\<forall>d \<in> set (dirs_up_to_root (start_dir startDir w)).
          files w (path_resolve (cwd w) [path_join [d, ''package.json'']]) = None"
  proof
    fix d assume "d \<in> set (dirs_up_to_root (start_dir startDir w))"
    then obtain k where k: "k \<le> length segs" "d = render (take k segs)"
      unfolding start_dir_rendered_eq[OF c s] using in_dirs_rendered[OF c] by blast
    have "k \<in> set [0..<Suc (length segs)]" using k(1) by auto
    then have "files w (render (take k segs @ [''package.json''])) = None"
      using a unfolding list_all_iff by blast
    then have "\<not> manifest_at w (render (take k segs))"
      using c by (simp add: manifest_at_rendered clean_take)
    then show "files w (path_resolve (cwd w) [path_join [d, ''package.json'']]) = None"
      using k(2) by (simp add: manifest_at_def fs_existsSync_def)
  qed
  then show ?thesis by (simp add: manifest_at_def fs_existsSync_def)
qed

lemma agree_files:
  assumes "\<forall>d \<in> set (dirs_up_to_root p).
             files w' (path_join [d, ''package.json'']) = files w (path_join [d, ''package.json''])"
  shows "\<forall>k \<le> length (dir_segments p).
           files w' (render (take k (dir_segments p) @ [''package.json'']))
             = files w (render (take k (dir_segments p) @ [''package.json'']))"
proof (intro allI impI)
  fix k assume k: "k \<le> length (dir_segments p)"
  have "path_join [render (take k (dir_segments p)), ''package.json'']
          = render (take k (dir_segments p) @ [''package.json''])"
    by (simp add: path_join_name clean_take dir_segments_clean)
  with assms in_dirs_up_to_root[OF k]
  show "files w' (render (take k (dir_segments p) @ [''package.json'']))
          = files w (render (take k (dir_segments p) @ [''package.json'']))"
    by fastforce
qed

subsection \<open>Reading the manifest and collecting the names\<close>

lemma read_rendered:
  "list_all clean_seg segs \<Longrightarrow>
   fs_readFileSync (render segs) w =
     (case files w (render segs) of
        None \<Rightarrow> (Inl ENOENT, w)
      | Some Directory \<Rightarrow> (Inl EISDIR, w)
      | Some (File body) \<Rightarrow> (Inr body, w))"
  by (simp add: fs_readFileSync_def path_resolve_id)

lemma fs_readFileSync_world: "snd (fs_readFileSync p w) = w"
  by (simp add: fs_readFileSync_def split: option.splits node.splits)

lemma check_not_found:
  "findPackageJson None w = Some (None, w) \<Longrightarrow>
   check JSON_parse packages opt w = Some (Inl (Error ''Could not find a package.json file''), w)"
  by (simp add: check_def)

lemma check_returns:
  assumes "isAbsolute (cwd w)"
  shows "\<exists>r. check JSON_parse packages opt w = Some (r, w)"
proof -
  obtain r where r: "findPackageJson None w = Some (r, w)"
    using findPackageJson_returns[OF assms] by blast
  show ?thesis
  proof (cases r)
    case None
    with r show ?thesis by (simp add: check_def)
  next
    case (Some p)
    obtain x where x: "fs_readFileSync p w = (x, w)"
      using fs_readFileSync_world[of p w] by (cases "fs_readFileSync p w") simp
    with r Some show ?thesis
      by (auto simp: check_def split: sum.splits option.splits)
  qed
qed

lemma check_agree:
  assumes abs: "isAbsolute (cwd w)" and same: "cwd w' = cwd w"
    and agree: "\<forall>d \<in> set (dirs_up_to_root (start_dir None w)).
             files w' (path_join [d, ''package.json'']) = files w (path_join [d, ''package.json''])"
  shows "map_option fst (check JSON_parse packages opt w')
           = map_option fst (check JSON_parse packages opt w)"
proof -
  let ?segs = "dir_segments (start_dir None w)"
  have c: "list_all clean_seg ?segs" by (rule dir_segments_clean)
  have sd: "start_dir None w' = start_dir None w"
    using same by (simp add: start_dir_def start_or_cwd_def)
  have f: "findPackageJson None w = findPackageJson_loop (render ?segs) w"
    by (rule findPackageJson_loop_segments[OF abs])
  have f': "findPackageJson None w' = findPackageJson_loop (render ?segs) w'"
    using findPackageJson_loop_segments[of w' None] abs same sd by simp
  obtain r where r: "findPackageJson_loop (render ?segs) w = Some (r, w)"
    using loop_returns[OF c] by blast
  obtain r' where r': "findPackageJson_loop (render ?segs) w' = Some (r', w')"
    using loop_returns[OF c] by blast
  have "map_option fst (findPackageJson_loop (render ?segs) w')
          = map_option fst (findPackageJson_loop (render ?segs) w)"
    by (rule loop_agree[OF c agree_files[OF agree]])
  with r r' have rr: "r' = r" by simp
  show ?thesis
  proof (cases r)
    case None
    with f f' r r' rr show ?thesis by (simp add: check_def)
  next
    case (Some p)
    obtain k where k: "k \<le> length ?segs" "p = render (take k ?segs @ [''package.json''])"
      using loop_result_shape[OF c] r Some by blast
    have cp: "list_all clean_seg (take k ?segs @ [''package.json''])"
      using c by (simp add: clean_take)
    have "files w' p = files w p"
      using agree_files[OF agree] k by simp
    then have "fst (fs_readFileSync p w') = fst (fs_readFileSync p w)"
      unfolding k(2) read_rendered[OF cp]
      by (simp split: option.splits node.splits)
    moreover have "snd (fs_readFileSync p w') = w'" "snd (fs_readFileSync p w) = w"
      by (rule fs_readFileSync_world)+
    ultimately show ?thesis
      using f f' r r' rr Some
      by (cases "fs_readFileSync p w"; cases "fs_readFileSync p w'")
         (auto simp: check_def split: sum.splits option.splits)
  qed
qed

lemma indexOf_from_mem: "0 \<le> i \<Longrightarrow> (indexOf_from i xs x \<noteq> - 1) = (x \<in> set xs)"
  by (induction xs arbitrary: i) auto

lemma indexOf_mem: "(indexOf xs x \<noteq> - 1) = (x \<in> set xs)"
  by (simp add: indexOf_def indexOf_from_mem)

lemma foldl_status_dom:
  "dom (foldl (\<lambda>status pkg. set_property status pkg (f pkg)) m ps)
     = dom m \<union> (set ps - {''__proto__''})"
  by (induction ps arbitrary: m) (auto simp: set_property_def)

lemma foldl_status_other:
  "pkg \<notin> set ps \<Longrightarrow> foldl (\<lambda>status pkg. set_property status pkg (f pkg)) m ps pkg = m pkg"
  by (induction ps arbitrary: m) (auto simp: set_property_def)

lemma foldl_status_value:
  "pkg \<in> set ps \<Longrightarrow> pkg \<noteq> ''__proto__'' \<Longrightarrow>
   foldl (\<lambda>status pkg. set_property status pkg (f pkg)) m ps pkg = Some (f pkg)"
proof (induction ps arbitrary: m)
  case Nil
  then show ?case by simp
next
  case (Cons a ps)
  show ?case
  proof (cases "pkg \<in> set ps")
    case True
    with Cons show ?thesis by simp
  next
    case False
    with Cons.prems have "a = pkg" by simp
    with False have "foldl (\<lambda>status pkg. set_property status pkg (f pkg)) m (a # ps) pkg
        = set_property m pkg (f pkg) pkg"
      by (simp add: foldl_status_other)
    with Cons.prems(2) show ?thesis by (simp add: set_property_def)
  qed
qed

lemma reduce_status_dom:
  "dom (reduce_status deps packages) = set packages - {''__proto__''}"
  by (simp add: reduce_status_def foldl_status_dom)

lemma reduce_status_value:
  "pkg \<in> set packages \<Longrightarrow> pkg \<noteq> ''__proto__'' \<Longrightarrow>
   reduce_status deps packages pkg = Some (pkg \<in> set deps)"
  by (simp add: reduce_status_def foldl_status_value indexOf_mem)

lemma reduce_status_requested:
  assumes "''__proto__'' \<notin> set packages" and "pkg \<in> set packages"
  shows "reduce_status deps packages pkg = Some (pkg \<in> set deps)"
proof -
  have "pkg \<noteq> ''__proto__''" using assms by auto
  with assms(2) show ?thesis by (rule reduce_status_value)
qed

lemma concat_keys_object:
  "field_keys fileJson name = Some keys \<Longrightarrow> concat_keys deps fileJson name = Inr (deps @ keys)"
  by (auto simp: field_keys_def concat_keys_def get_property_def Object_keys_def
           split: json.splits option.splits)

lemma concat_keys_absent:
  "concat_keys deps (JObject props) name = Inl TypeError" if "map_of props name = None"
  using that by (simp add: concat_keys_def get_property_def Object_keys_def)

lemma collect_deps_objects:
  assumes "devDependencies opt \<longrightarrow> field_keys fileJson ''devDependencies'' = Some devKeys"
    and "dependencies opt \<longrightarrow> field_keys fileJson ''dependencies'' = Some depKeys"
  shows "\<exists>deps. collect_deps fileJson opt = Inr deps \<and> set deps = selected_names opt devKeys depKeys"
  using assms by (auto simp: collect_deps_def concat_keys_object selected_names_def)

lemma collect_deps_none_selected:
  "\<not> devDependencies opt \<Longrightarrow> \<not> dependencies opt \<Longrightarrow> collect_deps fileJson opt = Inr []"
  by (simp add: collect_deps_def)

lemma check_missing_field:
  assumes "findPackageJson None w = Some (Some pkgJson, w)"
    and "fs_readFileSync pkgJson w = (Inr body, w)"
    and "JSON_parse body = Some (JObject props)"
    and "dependencies opt" and "map_of props ''dependencies'' = None"
    and "devDependencies opt \<longrightarrow> field_keys (JObject props) ''devDependencies'' = Some devKeys"
  shows "check JSON_parse packages opt w = Some (Inl TypeError, w)"
proof -
  have "collect_deps (JObject props) opt = Inl TypeError"
    using assms(4-6) by (auto simp: collect_deps_def concat_keys_object concat_keys_absent)
  with assms(1-3) show ?thesis by (simp add: check_def)
qed

lemma dir_segments_slash: "dir_segments (p @ ''/'') = dir_segments p"
  using split_on_append[of "CHR ''/''" p "[]"]
  by (simp add: dir_segments_def normalizeArray_def norm_from_append)

lemma start_dir_cwd:
  assumes "isAbsolute (cwd w)"
  shows "start_dir None w = render (dir_segments (cwd w))"
proof -
  have "cwd w \<noteq> []" using assms by (auto simp: isAbsolute_def)
  with assms have "resolve_from [] (rev [cwd w] @ [cwd w]) = (cwd w @ ''/'', True)"
    by simp
  from path_resolve_rendered[OF this] show ?thesis
    using dir_segments_slash[of "cwd w"]
    by (simp add: start_dir_def start_or_cwd_def dir_segments_def)
qed

lemma check_reads_entry:
  assumes "findPackageJson None w = Some (Some (render segs), w)" and "list_all clean_seg segs"
  shows "check JSON_parse packages opt w
           = Some (manifest_answer JSON_parse packages opt (files w (render segs)), w)"
  using assms
  by (simp add: check_def read_rendered manifest_answer_def
           split: option.splits node.splits sum.splits)

lemma check_nearest:
  assumes "isAbsolute (cwd w)" and "k \<le> length (dir_segments (cwd w))"
    and "manifest_at w (render (take k (dir_segments (cwd w))))"
    and "\<forall>j. k < j \<and> j \<le> length (dir_segments (cwd w)) \<longrightarrow>
           \<not> manifest_at w (render (take j (dir_segments (cwd w))))"
    and "0 < k \<or> dir_segments (cwd w) = []"
  shows "check JSON_parse packages opt w
           = Some (manifest_answer JSON_parse packages opt
                     (files w (path_join [render (take k (dir_segments (cwd w))),
                                          ''package.json''])), w)"
proof -
  let ?segs = "dir_segments (cwd w)"
  have c: "list_all clean_seg ?segs" by (rule dir_segments_clean)
  have s: "dir_segments (start_dir None w) = ?segs"
    by (simp add: start_dir_cwd[OF assms(1)] dir_segments_render c)
  have p: "path_join [render (take k ?segs), ''package.json'']
             = render (take k ?segs @ [''package.json''])"
    using c by (simp add: path_join_name clean_take)
  have "findPackageJson None w
          = Some (Some (path_join [render (take k (dir_segments (start_dir None w))),
                                   ''package.json'']), w)"
    by (rule findPackageJson_nearest[OF assms(1)]) (use assms(2-5) in \<open>simp_all add: s\<close>)
  then have f: "findPackageJson None w = Some (Some (render (take k ?segs @ [''package.json''])), w)"
    by (simp add: s p)
  have "list_all clean_seg (take k ?segs @ [''package.json''])"
    using c by (simp add: clean_take)
  from check_reads_entry[OF f this] show ?thesis by (simp add: p)
qed

lemma dirs_up_to_root_cwd:
  assumes "isAbsolute (cwd w)"
  shows "dirs_up_to_root (start_dir None w) = dirs_up_to_root (cwd w)"
  by (simp add: dirs_up_to_root_def start_dir_cwd[OF assms] dir_segments_render dir_segments_clean)

subsection \<open>The example project\<close>

lemma project_found:
  "findPackageJson None (project body) = Some (Some ''/home/app/package.json'', project body)"
proof -
  have c: "list_all clean_seg [''home'', ''app'']" by (simp add: clean_seg_def)
  have "findPackageJson None (project body) = findPackageJson_loop (render [''home'', ''app'']) (project body)"
    by (rule findPackageJson_rendered[OF c]) (simp add: start_or_cwd_def project_def world_of_def render_def)
  also have "\<dots> = Some (Some (render ([''home'', ''app''] @ [''package.json''])), project body)"
    by (subst loop_unfold[OF c]) (simp add: project_def world_of_def render_def)
  finally show ?thesis by (simp add: render_def)
qed

lemma project_read:
  "fs_readFileSync ''/home/app/package.json'' (project body) = (Inr body, project body)"
proof -
  have c: "list_all clean_seg [''home'', ''app'', ''package.json'']" by (simp add: clean_seg_def)
  have "fs_readFileSync (render [''home'', ''app'', ''package.json'']) (project body)
        = (Inr body, project body)"
    by (subst read_rendered[OF c]) (simp add: project_def world_of_def render_def)
  then show ?thesis by (simp add: render_def)
qed

lemma project_check:
  "example_parse body = Some fileJson \<Longrightarrow>
   check example_parse packages opt (project body) =
     Some (case collect_deps fileJson opt of
             Inl e \<Rightarrow> (Inl e, project body)
           | Inr deps \<Rightarrow> (Inr (reduce_status deps packages), project body))"
  using project_found[of body] project_read[of body] by (simp add: check_def)

lemma example_parse_texts:
  "example_parse deps_text = Some deps_json"
  "example_parse dev_text = Some dev_json"
  "example_parse bare_text = Some bare_json"
  by (simp_all add: example_parse_def parse_table_def deps_text_def dev_text_def bare_text_def)

subsection \<open>The command line of an installation\<close>

lemma array_join_contains:
  "p \<in> set ps \<Longrightarrow> \<exists>pre post. array_join sep ps = pre @ p @ post"
proof (induction sep ps rule: array_join.induct)
  case (1 sep)
  then show ?case by simp
next
  case (2 sep x)
  then have "array_join sep [x] = [] @ p @ []" by simp
  then show ?case by blast
next
  case (3 sep x y ys)
  show ?case
  proof (cases "p = x")
    case True
    then have "array_join sep (x # y # ys) = [] @ p @ (sep @ array_join sep (y # ys))" by simp
    then show ?thesis by blast
  next
    case False
    with 3 obtain pre post where "array_join sep (y # ys) = pre @ p @ post" by auto
    then have "array_join sep (x # y # ys) = (x @ sep @ pre) @ p @ post" by simp
    then show ?thesis by blast
  qed
qed

lemma install_command_contains:
  assumes "p \<in> set ps"
  shows "\<exists>pre post. install_command (Arr ps) = pre @ p @ post"
proof -
  obtain pre post where "array_join '' '' ps = pre @ p @ post"
    using array_join_contains[OF assms] by blast
  then have "install_command (Arr ps) = (''npm i --save-dev '' @ pre) @ p @ post"
    by (simp add: install_command_def)
  then show ?thesis by blast
qed

lemma install_command_list:
  "install_command (Arr ps) = ''npm i --save-dev '' @ array_join '' '' ps"
  by (simp add: install_command_def)

lemma install_command_joined:
  "install_command (Arr ps) = install_command (Str (array_join '' '' ps))"
  by (simp add: install_command_def)

lemma install_command_single: "install_command (Str s) = install_command (Arr [s])"
  by (simp add: install_command_def)

lemma shell_exec_executed: "executed (snd (shell_exec cmd w)) = executed w @ [cmd]"
  by (simp add: shell_exec_def split: prod.splits)

lemma shell_execSync_throws: "shell_execSync cmd w = (Inl TypeError, w)"
  by (simp add: shell_execSync_def shell_exports_def)

lemma installSyncSaveDev_throws: "installSyncSaveDev packages w = (Inl TypeError, w)"
  by (simp add: installSyncSaveDev_def shell_execSync_throws)

section \<open>The claims\<close>

subsection \<open>C1: the nearest manifest, the root directory included\<close>

text \<open>
  C1 says that \<open>findPackageJson\<close> returns the nearest \<open>package.json\<close> at or above the
  start directory, also when the only one lies in the root directory. By
  \<open>findPackageJson_nearest\<close> that holds whenever the nearest manifest lies below the root,
  or the search starts in the root. It fails for a manifest in the root and a start below
  it: \<open>continue\<close> evaluates the loop condition on the parent, so the loop ends as soon as
  \<open>dir\<close> has become the root, before the root is looked at
  (\<open>findPackageJson_never_tests_root\<close>). Here \<open>/package.json\<close> exists, the search from
  \<open>/home/app\<close> returns \<open>null\<close>, and the search from \<open>/\<close> finds it.
\<close>

theorem root_manifest_skipped:
  "manifest_at (world_of ''/home/app'' [(''/package.json'', File bare_text)]) ''/'' \<and>
   findPackageJson (Some ''/home/app'') (world_of ''/home/app'' [(''/package.json'', File bare_text)])
     = Some (None, world_of ''/home/app'' [(''/package.json'', File bare_text)]) \<and>
   findPackageJson (Some ''/'') (world_of ''/home/app'' [(''/package.json'', File bare_text)])
     = Some (Some ''/package.json'', world_of ''/home/app'' [(''/package.json'', File bare_text)])"
proof -
  let ?w = "world_of ''/home/app'' [(''/package.json'', File bare_text)]"
  have c: "list_all clean_seg [''home'', ''app'']" "list_all clean_seg [''home'']"
    "list_all clean_seg []"
    by (simp_all add: clean_seg_def)
  have m: "manifest_at ?w (render [])"
    by (subst manifest_at_rendered[OF c(3)]) (simp add: world_of_def render_def)
  have "findPackageJson (Some ''/home/app'') ?w = findPackageJson_loop (render [''home'', ''app'']) ?w"
    by (rule findPackageJson_rendered[OF c(1)]) (simp add: start_or_cwd_def render_def)
  also have "\<dots> = findPackageJson_loop (render [''home'']) ?w"
    by (subst loop_unfold[OF c(1)]) (simp add: world_of_def render_def)
  also have "\<dots> = Some (None, ?w)"
    by (subst loop_unfold[OF c(2)]) (simp add: world_of_def render_def)
  finally have a: "findPackageJson (Some ''/home/app'') ?w = Some (None, ?w)" .
  have "findPackageJson (Some ''/'') ?w = findPackageJson_loop (render []) ?w"
    by (rule findPackageJson_rendered[OF c(3)]) (simp add: start_or_cwd_def render_def)
  also have "\<dots> = Some (Some (render ([] @ [''package.json''])), ?w)"
    by (subst loop_unfold[OF c(3)]) (simp add: world_of_def render_def)
  finally have b: "findPackageJson (Some ''/'') ?w = Some (Some ''/package.json'', ?w)"
    by (simp add: render_def)
  from m a b show ?thesis by (simp add: render_def)
qed

subsection \<open>C2: a selected field that the manifest does not have\<close>

text \<open>
  C2 says that a missing \<open>dependencies\<close> or \<open>devDependencies\<close> field counts as an empty
  set of names. In the code \<open>Object.keys(fileJson.dependencies)\<close> is then
  \<open>Object.keys(undefined)\<close>, which throws (\<open>check_missing_field\<close>): for the manifest with
  \<open>devDependencies {x}\<close> and no \<open>dependencies\<close>, \<open>checkDeps ["x"]\<close> ends in a
  \<open>TypeError\<close> and returns no mapping, while \<open>checkDevDeps ["x"]\<close> returns \<open>{x: true}\<close>.
\<close>

theorem missing_field_throws:
  "checkDeps example_parse [''x''] (project dev_text) = Some (Inl TypeError, project dev_text) \<and>
   checkDevDeps example_parse [''x''] (project dev_text)
     = Some (Inr [''x'' \<mapsto> True], project dev_text)"
  by (simp add: checkDeps_def checkDevDeps_def project_check[OF example_parse_texts(2)]
        collect_deps_def concat_keys_def get_property_def Object_keys_def dev_json_def
        reduce_status_def set_property_def indexOf_def)

subsection \<open>C3: no manifest anywhere up to the root\<close>

text \<open>
  C3: when no \<open>package.json\<close> exists in the start directory or in any directory above it,
  the root included, \<open>findPackageJson\<close> returns \<open>null\<close> and raises nothing; and when that
  holds for the working directory, \<open>check\<close>, \<open>checkDeps\<close> and \<open>checkDevDeps\<close> end in
  the error "Could not find a package.json file", with no mapping returned. The working
  directory is an absolute path, as \<open>process.cwd()\<close> always is.
\<close>

theorem absent_manifest:
  assumes "isAbsolute (cwd w)"
  shows "((\<forall>d \<in> set (dirs_up_to_root (start_dir startDir w)). \<not> manifest_at w d) \<longrightarrow>
            findPackageJson startDir w = Some (None, w)) \<and>
         ((\<forall>d \<in> set (dirs_up_to_root (start_dir None w)). \<not> manifest_at w d) \<longrightarrow>
            check JSON_parse packages opt w
              = Some (Inl (Error ''Could not find a package.json file''), w) \<and>
            checkDeps JSON_parse packages w
              = Some (Inl (Error ''Could not find a package.json file''), w) \<and>
            checkDevDeps JSON_parse packages w
              = Some (Inl (Error ''Could not find a package.json file''), w))"
  using findPackageJson_none[OF assms]
  by (simp add: check_not_found checkDeps_def checkDevDeps_def)

theorem absent_manifest_witness:
  "findPackageJson (Some ''/home'') stray_world = Some (None, stray_world) \<and>
   check example_parse [''a''] \<lparr>dependencies = True, devDependencies = True\<rparr> stray_world
     = Some (Inl (Error ''Could not find a package.json file''), stray_world) \<and>
   checkDeps example_parse [''a''] stray_world
     = Some (Inl (Error ''Could not find a package.json file''), stray_world) \<and>
   checkDevDeps example_parse [''a''] stray_world
     = Some (Inl (Error ''Could not find a package.json file''), stray_world)"
proof -
  have abs: "isAbsolute (cwd stray_world)"
    by (simp add: stray_world_def world_of_def isAbsolute_def)
  have h1: "\<forall>d \<in> set (dirs_up_to_root (start_dir (Some ''/home'') stray_world)).
              \<not> manifest_at stray_world d"
    by (rule no_manifest_rendered[where segs = "[''home'']"])
       (simp_all add: clean_seg_def start_or_cwd_def stray_world_def world_of_def render_def)
  have h2: "\<forall>d \<in> set (dirs_up_to_root (start_dir None stray_world)).
              \<not> manifest_at stray_world d"
    by (rule no_manifest_rendered[where segs = "[''home'', ''app'']"])
       (simp_all add: clean_seg_def start_or_cwd_def stray_world_def world_of_def render_def)
  from absent_manifest[OF abs, where startDir = "Some ''/home''" and JSON_parse = example_parse
      and packages = "[''a'']" and opt = "\<lparr>dependencies = True, devDependencies = True\<rparr>"] h1 h2
  show ?thesis by simp
qed

subsection \<open>C4: the mapping that check returns\<close>

text \<open>
  C4 says that for every list of requested names the keys of the result are exactly the
  requested names, each mapped to whether it is a key of a selected field; the comment
  above \<open>check\<close> says the same ("An object whose keys are the module names"). For the
  name \<open>__proto__\<close> the code does not do that: the assignment \<open>status["__proto__"] = b\<close>
  on the plain object goes to the inherited setter and creates no key, so the result of
  \<open>checkDeps ["a", "__proto__"]\<close> has the key \<open>a\<close> only.
\<close>

theorem proto_name_dropped:
  "checkDeps example_parse [''a'', ''__proto__''] (project deps_text)
     = Some (Inr [''a'' \<mapsto> True], project deps_text) \<and>
   dom [''a'' \<mapsto> True] \<noteq> set [''a'', ''__proto__'']"
  by (simp add: checkDeps_def project_check[OF example_parse_texts(1)]
        collect_deps_def concat_keys_def get_property_def Object_keys_def deps_json_def
        reduce_status_def set_property_def indexOf_def)

text \<open>
  For requested names other than \<open>__proto__\<close> the mapping is as described, whenever the
  manifest is found and parses to an object whose selected fields are objects.
\<close>

lemma check_membership:
  assumes "findPackageJson None w = Some (Some pkgJson, w)"
    and "fs_readFileSync pkgJson w = (Inr body, w)"
    and "JSON_parse body = Some fileJson"
    and "devDependencies opt \<longrightarrow> field_keys fileJson ''devDependencies'' = Some devKeys"
    and "dependencies opt \<longrightarrow> field_keys fileJson ''dependencies'' = Some depKeys"
    and "''__proto__'' \<notin> set packages"
  shows "\<exists>status. check JSON_parse packages opt w = Some (Inr status, w) \<and>
           dom status = set packages \<and>
           (\<forall>pkg \<in> set packages. status pkg = Some (pkg \<in> selected_names opt devKeys depKeys))"
proof -
  obtain deps where d: "collect_deps fileJson opt = Inr deps"
      "set deps = selected_names opt devKeys depKeys"
    using collect_deps_objects[OF assms(4,5)] by blast
  have c: "check JSON_parse packages opt w = Some (Inr (reduce_status deps packages), w)"
    using assms(1-3) d(1) by (simp add: check_def)
  have "dom (reduce_status deps packages) = set packages"
    using assms(6) by (simp add: reduce_status_dom)
  moreover have "\<forall>pkg \<in> set packages. reduce_status deps packages pkg
      = Some (pkg \<in> selected_names opt devKeys depKeys)"
    using assms(6) d(2) by (simp add: reduce_status_requested)
  ultimately show ?thesis using c by blast
qed

lemma check_membership_example:
  "\<exists>status. checkDeps example_parse [''a'', ''c''] (project deps_text)
       = Some (Inr status, project deps_text) \<and>
     dom status = {''a'', ''c''} \<and> status ''a'' = Some True \<and> status ''c'' = Some False"
  using check_membership[where w = "project deps_text" and JSON_parse = example_parse
      and pkgJson = "''/home/app/package.json''" and body = deps_text and fileJson = deps_json
      and opt = "\<lparr>dependencies = True, devDependencies = False\<rparr>"
      and depKeys = "[''a'', ''b'']" and devKeys = "[]" and packages = "[''a'', ''c'']"]
  by (simp add: project_found project_read example_parse_texts field_keys_def deps_json_def
        selected_names_def checkDeps_def)

subsection \<open>C5: the empty list of names\<close>

text \<open>
  C5 says that \<open>checkDeps []\<close> returns the empty mapping whatever the manifest holds.
  The keys of \<open>dependencies\<close> are collected before the list of names is looked at, so
  for a manifest without that field the call ends in the \<open>TypeError\<close> of C2.
\<close>

theorem empty_list_missing_field_throws:
  "checkDeps example_parse [] (project bare_text) = Some (Inl TypeError, project bare_text)"
  by (simp add: checkDeps_def project_check[OF example_parse_texts(3)]
        collect_deps_def concat_keys_def get_property_def Object_keys_def bare_json_def)

subsection \<open>C6: one install command for all the names\<close>

text \<open>
  C6 says that \<open>installSyncSaveDev\<close> invokes the package manager exactly once, with one
  command line that holds all the names. The function builds that command line
  (\<open>install_command_list\<close>, \<open>install_command_contains\<close>) and then calls
  \<open>shell.execSync\<close>, which \<open>shelljs\<close> does not export: the call throws a \<open>TypeError\<close>
  and no command is handed to the shell, for a list and for a single string alike
  (\<open>installSyncSaveDev_throws\<close>).
\<close>

theorem install_issues_no_command:
  "installSyncSaveDev (Arr [''foo'', ''bar'']) (project deps_text)
     = (Inl TypeError, project deps_text) \<and>
   installSyncSaveDev (Str ''foo'') (project deps_text) = (Inl TypeError, project deps_text) \<and>
   executed (project deps_text) = [] \<and>
   install_command (Arr [''foo'', ''bar'']) = ''npm i --save-dev foo bar''"
  by (simp add: installSyncSaveDev_throws install_command_def project_def world_of_def)

subsection \<open>C7: neither field selected\<close>


text \<open>
  For requested names other than \<open>__proto__\<close> the call does not fail and maps each of them
  to false, whenever the manifest is found and parses.
\<close>

lemma check_nothing_selected:
  assumes "findPackageJson None w = Some (Some pkgJson, w)"
    and "fs_readFileSync pkgJson w = (Inr body, w)"
    and "JSON_parse body = Some fileJson"
    and "\<not> dependencies opt" and "\<not> devDependencies opt"
    and "''__proto__'' \<notin> set packages"
  shows "\<exists>status. check JSON_parse packages opt w = Some (Inr status, w) \<and>
           dom status = set packages \<and>
           (\<forall>pkg \<in> set packages. status pkg = Some False)"
proof -
  have c: "check JSON_parse packages opt w = Some (Inr (reduce_status [] packages), w)"
    using assms(1-3) collect_deps_none_selected[OF assms(5,4)] by (simp add: check_def)
  have "dom (reduce_status [] packages) = set packages"
    using assms(6) by (simp add: reduce_status_dom)
  moreover have "\<forall>pkg \<in> set packages. reduce_status [] packages pkg = Some False"
    using assms(6) by (simp add: reduce_status_requested)
  ultimately show ?thesis using c by blast
qed

lemma check_nothing_selected_example:
  "\<exists>status. check example_parse [''a'', ''c''] \<lparr>dependencies = False, devDependencies = False\<rparr>
         (project deps_text)
       = Some (Inr status, project deps_text) \<and>
     dom status = {''a'', ''c''} \<and> status ''a'' = Some False \<and> status ''c'' = Some False"
  using check_nothing_selected[where w = "project deps_text" and JSON_parse = example_parse
      and pkgJson = "''/home/app/package.json''" and body = deps_text and fileJson = deps_json
      and opt = "\<lparr>dependencies = False, devDependencies = False\<rparr>"
      and packages = "[''a'', ''c'']"]
  by (simp add: project_found project_read example_parse_texts)

subsection \<open>C8: check searches from the working directory\<close>

text \<open>
  C8: \<open>check\<close> and its wrappers begin the search for the manifest at the working
  directory, and nothing a caller passes changes that. With the working directory an
  absolute path: when some directory on the way from the working directory up to the
  root holds a \<open>package.json\<close>, no directory nearer to the working directory does, and
  that directory lies below the root or is the working directory itself (see C1), then
  what \<open>check\<close>, \<open>checkDeps\<close> and \<open>checkDevDeps\<close> return is computed from that entry,
  whatever other manifests exist; and two worlds with the same working directory that
  agree on the \<open>package.json\<close> entries of the directories from there up to the root give
  the same results.
\<close>

theorem check_starts_at_cwd:
  assumes "isAbsolute (cwd w)"
  shows "(k \<le> length (dir_segments (cwd w)) \<and>
          manifest_at w (render (take k (dir_segments (cwd w)))) \<and>
          (\<forall>j. k < j \<and> j \<le> length (dir_segments (cwd w)) \<longrightarrow>
                \<not> manifest_at w (render (take j (dir_segments (cwd w))))) \<and>
          (0 < k \<or> dir_segments (cwd w) = []) \<longrightarrow>
            check JSON_parse packages opt w
              = Some (manifest_answer JSON_parse packages opt
                        (files w (path_join [render (take k (dir_segments (cwd w))),
                                             ''package.json''])), w) \<and>
            checkDeps JSON_parse packages w
              = Some (manifest_answer JSON_parse packages
                        \<lparr>dependencies = True, devDependencies = False\<rparr>
                        (files w (path_join [render (take k (dir_segments (cwd w))),
                                             ''package.json''])), w) \<and>
            checkDevDeps JSON_parse packages w
              = Some (manifest_answer JSON_parse packages
                        \<lparr>dependencies = False, devDependencies = True\<rparr>
                        (files w (path_join [render (take k (dir_segments (cwd w))),
                                             ''package.json''])), w)) \<and>
         (cwd w' = cwd w \<and>
          (\<forall>d \<in> set (dirs_up_to_root (cwd w)).
             files w' (path_join [d, ''package.json'']) = files w (path_join [d, ''package.json''])) \<longrightarrow>
            map_option fst (check JSON_parse packages opt w')
              = map_option fst (check JSON_parse packages opt w) \<and>
            map_option fst (checkDeps JSON_parse packages w')
              = map_option fst (checkDeps JSON_parse packages w) \<and>
            map_option fst (checkDevDeps JSON_parse packages w')
              = map_option fst (checkDevDeps JSON_parse packages w))"
proof (intro conjI impI)
  assume h: "k \<le> length (dir_segments (cwd w)) \<and>
          manifest_at w (render (take k (dir_segments (cwd w)))) \<and>
          (\<forall>j. k < j \<and> j \<le> length (dir_segments (cwd w)) \<longrightarrow>
                \<not> manifest_at w (render (take j (dir_segments (cwd w))))) \<and>
          (0 < k \<or> dir_segments (cwd w) = [])"
  then have n: "\<And>o'. check JSON_parse packages o' w
      = Some (manifest_answer JSON_parse packages o'
                (files w (path_join [render (take k (dir_segments (cwd w))), ''package.json''])), w)"
    using check_nearest[OF assms, of k] by blast
  show "check JSON_parse packages opt w
      = Some (manifest_answer JSON_parse packages opt
                (files w (path_join [render (take k (dir_segments (cwd w))), ''package.json''])), w)"
    by (rule n)
  show "checkDeps JSON_parse packages w
      = Some (manifest_answer JSON_parse packages \<lparr>dependencies = True, devDependencies = False\<rparr>
                (files w (path_join [render (take k (dir_segments (cwd w))), ''package.json''])), w)"
    unfolding checkDeps_def by (rule n)
  show "checkDevDeps JSON_parse packages w
      = Some (manifest_answer JSON_parse packages \<lparr>dependencies = False, devDependencies = True\<rparr>
                (files w (path_join [render (take k (dir_segments (cwd w))), ''package.json''])), w)"
    unfolding checkDevDeps_def by (rule n)
next
  assume a: "cwd w' = cwd w \<and>
          (\<forall>d \<in> set (dirs_up_to_root (cwd w)).
             files w' (path_join [d, ''package.json'']) = files w (path_join [d, ''package.json'']))"
  then have same: "cwd w' = cwd w" by blast
  have agree: "\<forall>d \<in> set (dirs_up_to_root (start_dir None w)).
      files w' (path_join [d, ''package.json'']) = files w (path_join [d, ''package.json''])"
    using a by (simp add: dirs_up_to_root_cwd[OF assms])
  have g: "\<And>o'. map_option fst (check JSON_parse packages o' w')
      = map_option fst (check JSON_parse packages o' w)"
    by (rule check_agree[OF assms same agree])
  show "map_option fst (check JSON_parse packages opt w')
      = map_option fst (check JSON_parse packages opt w)"
    by (rule g)
  show "map_option fst (checkDeps JSON_parse packages w')
      = map_option fst (checkDeps JSON_parse packages w)"
    unfolding checkDeps_def by (rule g)
  show "map_option fst (checkDevDeps JSON_parse packages w')
      = map_option fst (checkDevDeps JSON_parse packages w)"
    unfolding checkDevDeps_def by (rule g)
qed

theorem check_starts_at_cwd_witness:
  "checkDeps example_parse [''a'', ''c''] nested_project
     = Some (Inr [''a'' \<mapsto> True, ''c'' \<mapsto> False], nested_project) \<and>
   checkDevDeps example_parse [''x''] nested_project = Some (Inl TypeError, nested_project) \<and>
   map_option fst (checkDeps example_parse [''a'', ''c''] nested_project_with_readme)
     = map_option fst (checkDeps example_parse [''a'', ''c''] nested_project)"
proof -
  have abs: "isAbsolute (cwd nested_project)"
    by (simp add: nested_project_def world_of_def isAbsolute_def)
  have c: "list_all clean_seg [''home'', ''app'']" by (simp add: clean_seg_def)
  have "cwd nested_project = render [''home'', ''app'']"
    by (simp add: nested_project_def world_of_def render_def)
  then have segs: "dir_segments (cwd nested_project) = [''home'', ''app'']"
    by (simp add: dir_segments_render[OF c])
  have here: "manifest_at nested_project (render [''home'', ''app''])"
    by (simp add: manifest_at_rendered[OF c]) (simp add: nested_project_def world_of_def render_def)
  have p: "path_join [render [''home'', ''app''], ''package.json'']
             = ''/home/app/package.json''"
    by (simp add: path_join_name[OF c]) (simp add: render_def)
  have f: "files nested_project ''/home/app/package.json'' = Some (File deps_text)"
    by (simp add: nested_project_def world_of_def)
  have same: "cwd nested_project_with_readme = cwd nested_project"
    by (simp add: nested_project_def nested_project_with_readme_def world_of_def)
  have "\<forall>d \<in> set (dirs_up_to_root (start_dir None nested_project)).
      files nested_project_with_readme (path_join [d, ''package.json''])
        = files nested_project (path_join [d, ''package.json''])"
    by (rule chain_rendered[where segs = "[''home'', ''app'']"])
       (simp_all add: clean_seg_def start_or_cwd_def nested_project_def
          nested_project_with_readme_def world_of_def render_def)
  then have agree: "\<forall>d \<in> set (dirs_up_to_root (cwd nested_project)).
      files nested_project_with_readme (path_join [d, ''package.json''])
        = files nested_project (path_join [d, ''package.json''])"
    by (simp add: dirs_up_to_root_cwd[OF abs])
  from check_starts_at_cwd[OF abs, where k = 2 and JSON_parse = example_parse
      and packages = "[''a'', ''c'']" and w' = nested_project_with_readme] segs here same agree
  have a: "checkDeps example_parse [''a'', ''c''] nested_project
      = Some (manifest_answer example_parse [''a'', ''c'']
                \<lparr>dependencies = True, devDependencies = False\<rparr> (Some (File deps_text)),
              nested_project)"
    and b: "map_option fst (checkDeps example_parse [''a'', ''c''] nested_project_with_readme)
      = map_option fst (checkDeps example_parse [''a'', ''c''] nested_project)"
    by (simp_all add: p f)
  from check_starts_at_cwd[OF abs, where k = 2 and JSON_parse = example_parse
      and packages = "[''x'']" and w' = nested_project_with_readme] segs here
  have d: "checkDevDeps example_parse [''x''] nested_project
      = Some (manifest_answer example_parse [''x'']
                \<lparr>dependencies = False, devDependencies = True\<rparr> (Some (File deps_text)),
              nested_project)"
    by (simp add: p f)
  have "manifest_answer example_parse [''a'', ''c'']
          \<lparr>dependencies = True, devDependencies = False\<rparr> (Some (File deps_text))
        = Inr [''a'' \<mapsto> True, ''c'' \<mapsto> False]"
    by (simp add: manifest_answer_def example_parse_texts collect_deps_def concat_keys_def
          get_property_def Object_keys_def deps_json_def reduce_status_def set_property_def
          indexOf_def)
  moreover have "manifest_answer example_parse [''x'']
          \<lparr>dependencies = False, devDependencies = True\<rparr> (Some (File deps_text))
        = Inl TypeError"
    by (simp add: manifest_answer_def example_parse_texts collect_deps_def concat_keys_def
          get_property_def Object_keys_def deps_json_def)
  ultimately show ?thesis using a b d by simp
qed

subsection \<open>C9: a list of names and its joined string\<close>


subsection \<open>C10: the queries only read\<close>

text \<open>
  C10: \<open>findPackageJson\<close>, \<open>check\<close>, \<open>checkDeps\<close> and \<open>checkDevDeps\<close> return, with a
  value or with an error, and the world they leave is the world they started in.
\<close>

theorem queries_only_read:
  assumes "isAbsolute (cwd w)"
  shows "(\<exists>r. findPackageJson startDir w = Some (r, w)) \<and>
         (\<exists>r. check JSON_parse packages opt w = Some (r, w)) \<and>
         (\<exists>r. checkDeps JSON_parse packages w = Some (r, w)) \<and>
         (\<exists>r. checkDevDeps JSON_parse packages w = Some (r, w))"
  using findPackageJson_returns[OF assms] check_returns[OF assms]
  by (simp add: checkDeps_def checkDevDeps_def)

theorem queries_only_read_witness:
  "(\<exists>r. findPackageJson (Some ''/home'') (project deps_text) = Some (r, project deps_text)) \<and>
   (\<exists>r. check example_parse [''a''] \<lparr>dependencies = True, devDependencies = True\<rparr>
           (project deps_text) = Some (r, project deps_text)) \<and>
   (\<exists>r. checkDeps example_parse [''a''] (project deps_text) = Some (r, project deps_text)) \<and>
   (\<exists>r. checkDevDeps example_parse [''a''] (project deps_text) = Some (r, project deps_text))"
proof -
  have abs: "isAbsolute (cwd (project deps_text))"
    by (simp add: project_def world_of_def isAbsolute_def)
  from queries_only_read[OF abs, where JSON_parse = example_parse] show ?thesis by blast
qed

end
